theory Spec2Isabelle
  imports Main
begin

section \<open>gofigure: recursive configuration loading\<close>

text \<open>
  A shallow embedding of \<^verbatim>\<open>gofigure.go\<close>: the directory walk (\<^verbatim>\<open>walkDir\<close>,
  \<^verbatim>\<open>walk\<close>) that sends file paths into a channel, and the loader
  (\<^verbatim>\<open>LoadFile\<close>, \<^verbatim>\<open>LoadRecursive\<close>) that receives them and lets the decoder
  decode every file it accepts.
\<close>

subsection \<open>The imported primitives\<close>

type_synonym path = string

text \<open>A Go \<^verbatim>\<open>error\<close> value; \<^verbatim>\<open>nil\<close> is \<open>None\<close> of \<open>error option\<close>.\<close>

type_synonym error = string

text \<open>One \<^verbatim>\<open>os.FileInfo\<close> of a directory listing: the two methods the walk calls.\<close>

record fileinfo =
  Name :: string
  IsDir :: bool

text \<open>
  The contents of an open file. The \<^verbatim>\<open>*os.File\<close> that \<^verbatim>\<open>os.Open\<close> returns is
  \<open>Some\<close> of it, and \<open>None\<close> is the nil pointer returned beside an error.
\<close>

type_synonym contents = string
type_synonym handle = "contents option"

text \<open>
  The three library functions the code calls, taken as they are (black boxes):
  \<^verbatim>\<open>ioutil.ReadDir\<close>, \<^verbatim>\<open>os.Open\<close> and \<^verbatim>\<open>filepath.Join\<close>. A failure is \<open>Inl\<close> of
  the error.
\<close>

record filesystem =
  ReadDir :: "path \<Rightarrow> error + fileinfo list"
  Open :: "path \<Rightarrow> error + contents"
  Join :: "path \<Rightarrow> string \<Rightarrow> path"

subsection \<open>The producer: \<^verbatim>\<open>walkDir\<close> and \<^verbatim>\<open>walk\<close>\<close>

text \<open>
  What the goroutine started by \<^verbatim>\<open>walk\<close> does, in order: the directories it lists, the
  errors it logs, the paths it sends on \<^verbatim>\<open>ch\<close>, the selects in which it received from
  \<^verbatim>\<open>cancelc\<close> (and logged "Read canceled"), and the final \<^verbatim>\<open>close(ch)\<close>.
\<close>

datatype pevent =
    Listed path
  | LogError path error
  | Sent path
  | Canceled
  | ChClosed

text \<open>
  The \<^verbatim>\<open>select\<close> of \<^verbatim>\<open>walkDir\<close> has two cases. Which one runs is decided outside the
  goroutine: the receive from \<^verbatim>\<open>cancelc\<close> can run only once \<^verbatim>\<open>cancelc\<close> is closed, the
  send only when \<^verbatim>\<open>ch\<close> has room (or a receiver waits), and when both can run Go picks
  one of them at random. A schedule gives the case taken by the i-th select of a run. How
  long a select waits until one of its cases can run is not part of the model.
\<close>

datatype select_case = SendCase | CancelCase

type_synonym schedule = "nat \<Rightarrow> select_case"

record pstate =
  ptrace :: "pevent list"
  nselect :: nat

definition pemit :: "pevent \<Rightarrow> pstate \<Rightarrow> pstate" where
  "pemit e st = st\<lparr>ptrace := ptrace st @ [e]\<rparr>"

definition pselect :: "pevent \<Rightarrow> pstate \<Rightarrow> pstate" where
  "pselect e st = st\<lparr>ptrace := ptrace st @ [e], nselect := Suc (nselect st)\<rparr>"

text \<open>
  The loop \<^verbatim>\<open>for _, file := range files\<close> of \<^verbatim>\<open>walkDir\<close>. The recursive call
  \<^verbatim>\<open>walkDir(fullpath, ch, cancelc)\<close> is the parameter \<open>rec\<close>; \<open>None\<close> is a recursion that
  ran out of depth. The \<^verbatim>\<open>return\<close> of the cancel case leaves this loop, that is this
  call of \<^verbatim>\<open>walkDir\<close>, and nothing else.
\<close>

fun walkFiles ::
  "(path \<Rightarrow> pstate \<Rightarrow> pstate option) \<Rightarrow> filesystem \<Rightarrow> schedule \<Rightarrow> path \<Rightarrow>
   fileinfo list \<Rightarrow> pstate \<Rightarrow> pstate option" where
  "walkFiles rec fs sch path [] st = Some st"
| "walkFiles rec fs sch path (f # files) st =
     (let fullpath = Join fs path (Name f) in
      if IsDir f then
        (case rec fullpath st of
           None \<Rightarrow> None
         | Some st' \<Rightarrow> walkFiles rec fs sch path files st')
      else
        (case sch (nselect st) of
           SendCase \<Rightarrow> walkFiles rec fs sch path files (pselect (Sent fullpath) st)
         | CancelCase \<Rightarrow> Some (pselect Canceled st)))"

text \<open>
  \<^verbatim>\<open>walkDir\<close>. The first argument bounds the depth of the recursion: \<open>walkDir n\<close> may
  descend through \<open>n\<close> levels of directories and is \<open>None\<close> when the tree is deeper.
\<close>

fun walkDir :: "nat \<Rightarrow> filesystem \<Rightarrow> schedule \<Rightarrow> path \<Rightarrow> pstate \<Rightarrow> pstate option" where
  "walkDir 0 fs sch path st = None"
| "walkDir (Suc n) fs sch path st =
     (case ReadDir fs path of
        Inl err \<Rightarrow> Some (pemit (LogError path err) (pemit (Listed path) st))
      | Inr files \<Rightarrow> walkFiles (walkDir n fs sch) fs sch path files (pemit (Listed path) st))"

text \<open>The loop \<^verbatim>\<open>for _, path := range paths\<close> of the goroutine in \<^verbatim>\<open>walk\<close>.\<close>

fun walkPaths :: "nat \<Rightarrow> filesystem \<Rightarrow> schedule \<Rightarrow> path list \<Rightarrow> pstate \<Rightarrow> pstate option" where
  "walkPaths n fs sch [] st = Some st"
| "walkPaths n fs sch (path # paths) st =
     (case walkDir n fs sch path st of
        None \<Rightarrow> None
      | Some st' \<Rightarrow> walkPaths n fs sch paths st')"

text \<open>
  The goroutine of \<^verbatim>\<open>walk\<close>: it walks every path in order and then closes \<^verbatim>\<open>ch\<close>
  (\<^verbatim>\<open>defer close(ch)\<close>). The result is the trace of the whole run.
\<close>

definition walk :: "nat \<Rightarrow> filesystem \<Rightarrow> schedule \<Rightarrow> path list \<Rightarrow> pevent list option" where
  "walk n fs sch paths =
     (case walkPaths n fs sch paths \<lparr>ptrace = [], nselect = 0\<rparr> of
        None \<Rightarrow> None
      | Some st \<Rightarrow> Some (ptrace st @ [ChClosed]))"

text \<open>The paths a run has sent on \<^verbatim>\<open>ch\<close>, in the order sent.\<close>

fun emitted :: "pevent list \<Rightarrow> path list" where
  "emitted [] = []"
| "emitted (Sent p # es) = p # emitted es"
| "emitted (e # es) = emitted es"

text \<open>The schedule of a run during which \<^verbatim>\<open>cancelc\<close> stays open: every select sends.\<close>

definition sendAlways :: schedule where
  "sendAlways = (\<lambda>i. SendCase)"

text \<open>
  The directory tree below \<open>path\<close> is at most \<open>d\<close> levels deep: the listing of \<open>path\<close>
  fails, or each subdirectory it names is at most \<open>d - 1\<close> levels deep.
\<close>

fun within_depth :: "nat \<Rightarrow> filesystem \<Rightarrow> path \<Rightarrow> bool" where
  "within_depth 0 fs path = False"
| "within_depth (Suc d) fs path =
     (case ReadDir fs path of
        Inl err \<Rightarrow> True
      | Inr files \<Rightarrow>
          list_all (\<lambda>f. \<not> IsDir f \<or> within_depth d fs (Join fs path (Name f))) files)"

subsection \<open>The decoder and the loader\<close>

text \<open>
  The \<^verbatim>\<open>Decoder\<close> interface. \<open>'c\<close> is the configuration struct behind the
  \<^verbatim>\<open>interface{}\<close> argument; \<^verbatim>\<open>Decode\<close> writes into it and may do so also when it
  returns an error, so it returns the struct it leaves behind.
\<close>

record 'c Decoder =
  Decode :: "handle \<Rightarrow> 'c \<Rightarrow> error option \<times> 'c"
  CanDecode :: "path \<Rightarrow> bool"

record 'c Loader =
  decoder :: "'c Decoder"
  StrictMode :: bool

definition NewLoader :: "'c Decoder \<Rightarrow> bool \<Rightarrow> 'c Loader" where
  "NewLoader d strict = \<lparr>decoder = d, StrictMode = strict\<rparr>"

datatype level = DEBUG | INFO

text \<open>
  What the loader does, in order: the messages it logs (level, format string, arguments),
  the calls of \<^verbatim>\<open>os.Open\<close>, of \<^verbatim>\<open>Decode\<close> and of \<^verbatim>\<open>fp.Close\<close> with the path being
  loaded, and \<^verbatim>\<open>close(cancelc)\<close>.
\<close>

datatype levent =
    Log level string "string list"
  | OpenCall path
  | DecodeCall path handle
  | CloseCall path handle
  | CancelClose

record 'c lstate =
  config :: 'c
  ltrace :: "levent list"

definition lemit :: "levent \<Rightarrow> 'c lstate \<Rightarrow> 'c lstate" where
  "lemit e st = st\<lparr>ltrace := ltrace st @ [e]\<rparr>"

text \<open>
  \<^verbatim>\<open>LoadFile\<close>. After a failed open \<^verbatim>\<open>fp\<close> is nil; the code returns there only in
  strict mode, and otherwise goes on to \<^verbatim>\<open>defer fp.Close()\<close> and \<^verbatim>\<open>Decode(fp, config)\<close>
  with that \<^verbatim>\<open>fp\<close>. The deferred \<^verbatim>\<open>Close\<close> runs at both returns below the \<^verbatim>\<open>defer\<close>.
\<close>

definition LoadFile ::
  "'c Loader \<Rightarrow> filesystem \<Rightarrow> path \<Rightarrow> 'c lstate \<Rightarrow> error option \<times> 'c lstate" where
  "LoadFile l fs path st0 =
     (let st1 = lemit (Log DEBUG ''Reading config file %s'' [path]) st0;
          (fp, err) = (case Open fs path of
                         Inl e \<Rightarrow> (None, Some e)
                       | Inr f \<Rightarrow> (Some f, None));
          st2 = lemit (OpenCall path) st1;
          st3 = (case err of
                   Some e \<Rightarrow> lemit (Log INFO ''Error opening file %s: %s'' [path, e]) st2
                 | None \<Rightarrow> st2)
      in if err \<noteq> None \<and> StrictMode l then (err, st3)
         else
           (let (err', cfg) = Decode (decoder l) fp (config st3);
                st4 = lemit (DecodeCall path fp) (st3\<lparr>config := cfg\<rparr>);
                st5 = (case err' of
                         Some e \<Rightarrow> lemit (Log INFO ''Error decodeing file %s: %s'' [path, e]) st4
                       | None \<Rightarrow> st4);
                st6 = lemit (CloseCall path fp) st5
            in if err' \<noteq> None \<and> StrictMode l then (err', st6) else (None, st6)))"

text \<open>
  The loop \<^verbatim>\<open>for path := range ch\<close> of \<^verbatim>\<open>LoadRecursive\<close>, over the paths received
  from \<^verbatim>\<open>ch\<close>. It ends with the \<^verbatim>\<open>return err\<close> of strict mode, or with \<^verbatim>\<open>return nil\<close>
  once \<^verbatim>\<open>ch\<close> is closed and empty.
\<close>

fun loadLoop ::
  "'c Loader \<Rightarrow> filesystem \<Rightarrow> path list \<Rightarrow> 'c lstate \<Rightarrow> error option \<times> 'c lstate" where
  "loadLoop l fs [] st = (None, st)"
| "loadLoop l fs (path # ch) st =
     (if CanDecode (decoder l) path then
        (case LoadFile l fs path st of
           (Some err, st') \<Rightarrow>
             (let st'' = lemit (Log INFO ''Error loading %s: %s'' [path, err]) st' in
              if StrictMode l then (Some err, st'') else loadLoop l fs ch st'')
         | (None, st') \<Rightarrow> loadLoop l fs ch st')
      else loadLoop l fs ch st)"

text \<open>
  \<^verbatim>\<open>LoadRecursive\<close>. \<^verbatim>\<open>cancelc\<close> is closed by the deferred \<^verbatim>\<open>close(cancelc)\<close> and by
  nothing else, so while the loop runs every select of the producer can only send: the
  loop receives, in order, paths of the run of \<^verbatim>\<open>walk\<close> under \<open>sendAlways\<close>. The deferred
  close is the last thing the call does, whichever \<^verbatim>\<open>return\<close> ended the loop. \<open>None\<close> is
  a walk that ran out of depth.
\<close>

definition LoadRecursive ::
  "nat \<Rightarrow> 'c Loader \<Rightarrow> filesystem \<Rightarrow> 'c \<Rightarrow> path list \<Rightarrow> (error option \<times> 'c lstate) option" where
  "LoadRecursive n l fs cfg paths =
     (case walk n fs sendAlways paths of
        None \<Rightarrow> None
      | Some tr \<Rightarrow>
          (let (err, st) = loadLoop l fs (emitted tr) \<lparr>config = cfg, ltrace = []\<rparr>
           in Some (err, lemit CancelClose st)))"

text \<open>The paths passed to \<^verbatim>\<open>os.Open\<close>, and those for which \<^verbatim>\<open>Decode\<close> ran, in order.\<close>

fun opened :: "levent list \<Rightarrow> path list" where
  "opened [] = []"
| "opened (OpenCall p # es) = p # opened es"
| "opened (e # es) = opened es"

fun decoded :: "levent list \<Rightarrow> path list" where
  "decoded [] = []"
| "decoded (DecodeCall p h # es) = p # decoded es"
| "decoded (e # es) = decoded es"

subsection \<open>Depth-first pre-order, as the specification words it\<close>

text \<open>
  The concatenation of the contributions of a list of places, in order; it is undefined
  as soon as one contribution is.
\<close>

fun concat_opt :: "'a list option list \<Rightarrow> 'a list option" where
  "concat_opt [] = Some []"
| "concat_opt (None # r) = None"
| "concat_opt (Some xs # r) = map_option ((@) xs) (concat_opt r)"

text \<open>
  The files below a directory in depth-first pre-order: a directory that cannot be listed
  contributes nothing; otherwise its entries contribute in the order of the listing, a
  file its own path and a subdirectory all the files below it, before the entries that
  follow it. A directory's own path is never part of the result. As for \<open>walkDir\<close>, the
  first argument bounds the depth.
\<close>

fun preorder_spec :: "nat \<Rightarrow> filesystem \<Rightarrow> path \<Rightarrow> path list option" where
  "preorder_spec 0 fs dir = None"
| "preorder_spec (Suc n) fs dir =
     (case ReadDir fs dir of
        Inl err \<Rightarrow> Some []
      | Inr entries \<Rightarrow>
          concat_opt
            (map (\<lambda>e. if IsDir e then preorder_spec n fs (Join fs dir (Name e))
                       else Some [Join fs dir (Name e)])
               entries))"

subsection \<open>A small file system and a decoder\<close>

text \<open>
  Directory \<^verbatim>\<open>A\<close> holds \<^verbatim>\<open>a1.yaml\<close> and the subdirectory \<^verbatim>\<open>sub\<close> with \<^verbatim>\<open>a2.yaml\<close>;
  \<^verbatim>\<open>B\<close> holds \<^verbatim>\<open>b1.yaml\<close>; \<^verbatim>\<open>C\<close> holds \<^verbatim>\<open>c.yaml\<close>, the subdirectory \<^verbatim>\<open>locked\<close>,
  which cannot be listed, and \<^verbatim>\<open>z.yaml\<close>; \<^verbatim>\<open>D\<close> holds \<^verbatim>\<open>readme.txt\<close>; \<^verbatim>\<open>E\<close> holds the
  subdirectory \<^verbatim>\<open>conf.d\<close> with \<^verbatim>\<open>x.yaml\<close>, and \<^verbatim>\<open>e.yaml\<close>. Listings are in the order of
  the names, as \<^verbatim>\<open>ioutil.ReadDir\<close> returns them. Listing a regular file or a missing path
  fails. \<^verbatim>\<open>A/sub/a2.yaml\<close> is not valid YAML.
\<close>

definition example_fs :: filesystem where
  "example_fs =
     \<lparr>ReadDir = (\<lambda>p.
        if p = ''A'' then
          Inr [\<lparr>Name = ''a1.yaml'', IsDir = False\<rparr>, \<lparr>Name = ''sub'', IsDir = True\<rparr>]
        else if p = ''A/sub'' then Inr [\<lparr>Name = ''a2.yaml'', IsDir = False\<rparr>]
        else if p = ''B'' then Inr [\<lparr>Name = ''b1.yaml'', IsDir = False\<rparr>]
        else if p = ''C'' then
          Inr [\<lparr>Name = ''c.yaml'', IsDir = False\<rparr>, \<lparr>Name = ''locked'', IsDir = True\<rparr>,
               \<lparr>Name = ''z.yaml'', IsDir = False\<rparr>]
        else if p = ''C/locked'' then Inl ''permission denied''
        else if p = ''D'' then Inr [\<lparr>Name = ''readme.txt'', IsDir = False\<rparr>]
        else if p = ''E'' then
          Inr [\<lparr>Name = ''conf.d'', IsDir = True\<rparr>, \<lparr>Name = ''e.yaml'', IsDir = False\<rparr>]
        else if p = ''E/conf.d'' then Inr [\<lparr>Name = ''x.yaml'', IsDir = False\<rparr>]
        else if p \<in> set [''A/a1.yaml'', ''A/sub/a2.yaml'', ''B/b1.yaml'', ''C/c.yaml'',
                          ''C/z.yaml'', ''D/readme.txt'', ''E/conf.d/x.yaml'', ''E/e.yaml'']
          then Inl ''not a directory''
        else Inl ''no such file or directory''),
      Open = (\<lambda>p.
        if p = ''A/a1.yaml'' then Inr ''a: 1''
        else if p = ''A/sub/a2.yaml'' then Inr ''{''
        else if p = ''B/b1.yaml'' then Inr ''b: 2''
        else if p = ''C/c.yaml'' then Inr ''c: 3''
        else if p = ''C/z.yaml'' then Inr ''z: 4''
        else if p = ''D/readme.txt'' then Inr ''read me''
        else if p = ''E/conf.d/x.yaml'' then Inr ''x: 5''
        else if p = ''E/e.yaml'' then Inr ''e: 6''
        else Inl ''no such file or directory''),
      Join = (\<lambda>dir name. dir @ ''/'' @ name)\<rparr>"

text \<open>
  A decoder for files named \<^verbatim>\<open>*.yaml\<close>. The configuration is the list of the documents
  decoded so far; reading from a nil \<^verbatim>\<open>*os.File\<close> fails with "invalid argument".
\<close>

definition example_decoder :: "contents list Decoder" where
  "example_decoder =
     \<lparr>Decode = (\<lambda>fp cfg.
        case fp of
          None \<Rightarrow> (Some ''invalid argument'', cfg)
        | Some c \<Rightarrow> if c = ''{'' then (Some ''yaml: did not find expected node content'', cfg)
                    else (None, cfg @ [c])),
      CanDecode = (\<lambda>p. take 5 (rev p) = ''lmay.'')\<rparr>"

text \<open>A schedule in which the first select receives from \<^verbatim>\<open>cancelc\<close> and the later ones send.\<close>

definition cancelFirst :: schedule where
  "cancelFirst = (\<lambda>i. if i = 0 then CancelCase else SendCase)"

text \<open>A schedule in which every select receives from \<^verbatim>\<open>cancelc\<close>.\<close>

definition cancelAlways :: schedule where
  "cancelAlways = (\<lambda>i. CancelCase)"

section \<open>Properties of the walk\<close>

lemma emitted_append: "emitted (xs @ ys) = emitted xs @ emitted ys"
  by (induction xs rule: emitted.induct) auto

lemma walkFiles_mono:
  assumes "\<And>q s s'. rec q s = Some s' \<Longrightarrow> rec' q s = Some s'"
  shows "walkFiles rec fs sch p files st = Some st' \<Longrightarrow> walkFiles rec' fs sch p files st = Some st'"
proof (induction files arbitrary: st)
  case Nil
  then show ?case by simp
next
  case (Cons f files)
  then show ?case using assms
    by (auto simp: Let_def split: if_splits option.splits select_case.splits)
qed

lemma walkDir_Suc: "walkDir n fs sch p st = Some st' \<Longrightarrow> walkDir (Suc n) fs sch p st = Some st'"
proof (induction n arbitrary: p st st')
  case 0
  then show ?case by simp
next
  case (Suc n)
  show ?case
  proof (cases "ReadDir fs p")
    case (Inl e)
    with Suc.prems show ?thesis by simp
  next
    case (Inr files)
    with Suc.prems have "walkFiles (walkDir n fs sch) fs sch p files (pemit (Listed p) st) = Some st'"
      by simp
    then have "walkFiles (walkDir (Suc n) fs sch) fs sch p files (pemit (Listed p) st) = Some st'"
      by (rule walkFiles_mono[rotated]) (rule Suc.IH)
    with Inr show ?thesis by simp
  qed
qed

lemma walkDir_add: "walkDir n fs sch p st = Some st' \<Longrightarrow> walkDir (n + k) fs sch p st = Some st'"
proof (induction k)
  case 0
  then show ?case by simp
next
  case (Suc k)
  then have "walkDir (n + k) fs sch p st = Some st'" by simp
  then have "walkDir (Suc (n + k)) fs sch p st = Some st'" by (rule walkDir_Suc)
  then show ?case by simp
qed

lemma walkDir_mono: "walkDir n fs sch p st = Some st' \<Longrightarrow> n \<le> m \<Longrightarrow> walkDir m fs sch p st = Some st'"
  using walkDir_add[of n fs sch p st st' "m - n"] by simp

lemma map_option_append_Nil: "map_option ((@) []) x = x"
  by (cases x) simp_all

lemma walkPaths_mono: "walkPaths n fs sch ps st = Some st' \<Longrightarrow> n \<le> m \<Longrightarrow> walkPaths m fs sch ps st = Some st'"
  by (induction ps arbitrary: st) (auto split: option.splits dest: walkDir_mono)

lemma walkFiles_send:
  assumes "\<And>q s. map_option (emitted \<circ> ptrace) (rec q s) = map_option ((@) (emitted (ptrace s))) (spec q)"
  shows "map_option (emitted \<circ> ptrace) (walkFiles rec fs sendAlways p files st) =
         map_option ((@) (emitted (ptrace st)))
           (concat_opt (map (\<lambda>e. if IsDir e then spec (Join fs p (Name e)) else Some [Join fs p (Name e)]) files))"
proof (induction files arbitrary: st)
  case Nil
  then show ?case by simp
next
  case (Cons f files)
  show ?case
  proof (cases "IsDir f")
    case True
    show ?thesis
    proof (cases "rec (Join fs p (Name f)) st")
      case None
      with assms[of "Join fs p (Name f)" st] have "spec (Join fs p (Name f)) = None" by simp
      with None True show ?thesis by simp
    next
      case (Some s')
      with assms[of "Join fs p (Name f)" st] obtain xs where
        xs: "spec (Join fs p (Name f)) = Some xs" "emitted (ptrace s') = emitted (ptrace st) @ xs"
        by (auto simp: map_option_case split: option.splits)
      show ?thesis using Some True xs Cons.IH[of s']
        by (simp add: option.map_comp comp_def)
    qed
  next
    case False
    then show ?thesis using Cons.IH[of "pselect (Sent (Join fs p (Name f))) st"]
      by (simp add: sendAlways_def pselect_def emitted_append option.map_comp comp_def)
  qed
qed

lemma walkDir_send:
  "map_option (emitted \<circ> ptrace) (walkDir n fs sendAlways p st) =
   map_option ((@) (emitted (ptrace st))) (preorder_spec n fs p)"
proof (induction n arbitrary: p st)
  case 0
  then show ?case by simp
next
  case (Suc n)
  show ?case
  proof (cases "ReadDir fs p")
    case (Inl e)
    then show ?thesis by (simp add: pemit_def emitted_append)
  next
    case (Inr files)
    have "map_option (emitted \<circ> ptrace) (walkFiles (walkDir n fs sendAlways) fs sendAlways p files (pemit (Listed p) st)) =
         map_option ((@) (emitted (ptrace (pemit (Listed p) st))))
           (concat_opt (map (\<lambda>e. if IsDir e then preorder_spec n fs (Join fs p (Name e)) else Some [Join fs p (Name e)]) files))"
      by (rule walkFiles_send) (rule Suc.IH)
    with Inr show ?thesis by (simp add: pemit_def emitted_append comp_def)
  qed
qed

lemma walkPaths_send:
  "map_option (emitted \<circ> ptrace) (walkPaths n fs sendAlways ps st) =
   map_option ((@) (emitted (ptrace st))) (concat_opt (map (preorder_spec n fs) ps))"
proof (induction ps arbitrary: st)
  case Nil
  then show ?case by simp
next
  case (Cons q ps)
  show ?case
  proof (cases "walkDir n fs sendAlways q st")
    case None
    with walkDir_send[of n fs q st] have "preorder_spec n fs q = None" by simp
    with None show ?thesis by simp
  next
    case (Some s')
    with walkDir_send[of n fs q st] obtain xs where
      xs: "preorder_spec n fs q = Some xs" "emitted (ptrace s') = emitted (ptrace st) @ xs"
      by (auto simp: map_option_case split: option.splits)
    show ?thesis using Some xs Cons.IH[of s']
      by (simp add: option.map_comp comp_def)
  qed
qed

lemma walk_send: "map_option emitted (walk n fs sendAlways ps) = concat_opt (map (preorder_spec n fs) ps)"
proof -
  have "map_option emitted (walk n fs sendAlways ps) =
        map_option (emitted \<circ> ptrace) (walkPaths n fs sendAlways ps \<lparr>ptrace = [], nselect = 0\<rparr>)"
    by (simp add: walk_def emitted_append split: option.splits)
  also have "\<dots> = map_option ((@) []) (concat_opt (map (preorder_spec n fs) ps))"
    using walkPaths_send[of n fs ps "\<lparr>ptrace = [], nselect = 0\<rparr>"] by simp
  finally show ?thesis by (simp add: map_option_append_Nil)
qed

lemma walkFiles_total:
  assumes "\<And>f s. f \<in> set files \<Longrightarrow> IsDir f \<Longrightarrow> \<exists>s'. rec (Join fs p (Name f)) s = Some s'"
  shows "\<exists>st'. walkFiles rec fs sch p files st = Some st'"
  using assms
proof (induction files arbitrary: st)
  case Nil
  then show ?case by simp
next
  case (Cons f files)
  show ?case
  proof (cases "IsDir f")
    case True
    with Cons.prems[of f st] obtain s' where "rec (Join fs p (Name f)) st = Some s'" by auto
    moreover have "\<exists>st'. walkFiles rec fs sch p files s' = Some st'"
      by (rule Cons.IH) (simp add: Cons.prems)
    ultimately show ?thesis using True by simp
  next
    case False
    have "\<exists>st'. walkFiles rec fs sch p files (pselect (Sent (Join fs p (Name f))) st) = Some st'"
      by (rule Cons.IH) (simp add: Cons.prems)
    with False show ?thesis by (cases "sch (nselect st)") simp_all
  qed
qed

lemma walkDir_total: "within_depth d fs p \<Longrightarrow> \<exists>st'. walkDir d fs sch p st = Some st'"
proof (induction d arbitrary: p st)
  case 0
  then show ?case by simp
next
  case (Suc d)
  show ?case
  proof (cases "ReadDir fs p")
    case (Inl e)
    then show ?thesis by simp
  next
    case (Inr files)
    with Suc.prems have wd: "\<And>f. f \<in> set files \<Longrightarrow> IsDir f \<Longrightarrow> within_depth d fs (Join fs p (Name f))"
      by (auto simp: list_all_iff)
    have "\<exists>st'. walkFiles (walkDir d fs sch) fs sch p files (pemit (Listed p) st) = Some st'"
      by (rule walkFiles_total) (auto dest: wd intro: Suc.IH)
    with Inr show ?thesis by simp
  qed
qed

lemma walkPaths_total:
  "list_all (within_depth d fs) ps \<Longrightarrow> \<exists>st'. walkPaths d fs sch ps st = Some st'"
proof (induction ps arbitrary: st)
  case Nil
  then show ?case by simp
next
  case (Cons q ps)
  then obtain s' where "walkDir d fs sch q st = Some s'"
    using walkDir_total[of d fs q sch st] by auto
  with Cons show ?case by simp
qed

lemma walk_total: "list_all (within_depth d fs) ps \<Longrightarrow> \<exists>tr. walk d fs sch ps = Some tr"
  using walkPaths_total[of d fs ps sch "\<lparr>ptrace = [], nselect = 0\<rparr>"]
  by (auto simp: walk_def)

lemma walkFiles_extends:
  assumes "\<And>q s s'. rec q s = Some s' \<Longrightarrow> \<exists>tr. ptrace s' = ptrace s @ tr"
  shows "walkFiles rec fs sch p files st = Some st' \<Longrightarrow> \<exists>tr. ptrace st' = ptrace st @ tr"
proof (induction files arbitrary: st)
  case Nil
  then show ?case by simp
next
  case (Cons f files)
  show ?case
  proof (cases "IsDir f")
    case True
    with Cons.prems obtain s1 where s1: "rec (Join fs p (Name f)) st = Some s1"
      "walkFiles rec fs sch p files s1 = Some st'"
      by (auto split: option.splits)
    from assms[OF s1(1)] Cons.IH[OF s1(2)] show ?thesis by auto
  next
    case False
    show ?thesis
    proof (cases "sch (nselect st)")
      case SendCase
      with False Cons.prems
      have "walkFiles rec fs sch p files (pselect (Sent (Join fs p (Name f))) st) = Some st'" by simp
      from Cons.IH[OF this] show ?thesis by (auto simp: pselect_def)
    next
      case CancelCase
      with False Cons.prems show ?thesis by (auto simp: pselect_def)
    qed
  qed
qed

lemma walkDir_extends: "walkDir n fs sch p st = Some st' \<Longrightarrow> \<exists>tr. ptrace st' = ptrace st @ tr"
proof (induction n arbitrary: p st st')
  case 0
  then show ?case by simp
next
  case (Suc n)
  show ?case
  proof (cases "ReadDir fs p")
    case (Inl e)
    with Suc.prems show ?thesis by (auto simp: pemit_def)
  next
    case (Inr files)
    with Suc.prems have "walkFiles (walkDir n fs sch) fs sch p files (pemit (Listed p) st) = Some st'"
      by simp
    then have "\<exists>tr. ptrace st' = ptrace (pemit (Listed p) st) @ tr"
      by (rule walkFiles_extends[rotated]) (rule Suc.IH)
    then show ?thesis by (auto simp: pemit_def)
  qed
qed

lemma walkPaths_extends: "walkPaths n fs sch ps st = Some st' \<Longrightarrow> \<exists>tr. ptrace st' = ptrace st @ tr"
proof (induction ps arbitrary: st)
  case Nil
  then show ?case by simp
next
  case (Cons q ps)
  then obtain s1 where s1: "walkDir n fs sch q st = Some s1" "walkPaths n fs sch ps s1 = Some st'"
    by (auto split: option.splits)
  from walkDir_extends[OF s1(1)] Cons.IH[OF s1(2)] show ?case by auto
qed

lemma walkFiles_uncancelled:
  assumes rec: "\<And>q s s'. rec q s = Some s' \<Longrightarrow> Canceled \<notin> set (ptrace s') \<Longrightarrow> rec' q s = Some s'"
    and ext: "\<And>q s s'. rec q s = Some s' \<Longrightarrow> \<exists>tr. ptrace s' = ptrace s @ tr"
  shows "walkFiles rec fs sch p files st = Some st' \<Longrightarrow> Canceled \<notin> set (ptrace st') \<Longrightarrow>
         walkFiles rec' fs sendAlways p files st = Some st'"
proof (induction files arbitrary: st)
  case Nil
  then show ?case by simp
next
  case (Cons f files)
  show ?case
  proof (cases "IsDir f")
    case True
    with Cons.prems obtain s1 where s1: "rec (Join fs p (Name f)) st = Some s1"
      "walkFiles rec fs sch p files s1 = Some st'"
      by (auto split: option.splits)
    have "\<exists>tr. ptrace st' = ptrace s1 @ tr"
      using s1(2) by (rule walkFiles_extends[rotated]) (rule ext)
    with Cons.prems(2) have nc: "Canceled \<notin> set (ptrace s1)" by auto
    from rec[OF s1(1) nc] Cons.IH[OF s1(2) Cons.prems(2)] True show ?thesis by simp
  next
    case False
    show ?thesis
    proof (cases "sch (nselect st)")
      case SendCase
      with False Cons.prems
      have "walkFiles rec fs sch p files (pselect (Sent (Join fs p (Name f))) st) = Some st'" by simp
      from Cons.IH[OF this Cons.prems(2)] False show ?thesis by (simp add: sendAlways_def)
    next
      case CancelCase
      with False Cons.prems show ?thesis by (auto simp: pselect_def)
    qed
  qed
qed

lemma walkDir_uncancelled:
  "walkDir n fs sch p st = Some st' \<Longrightarrow> Canceled \<notin> set (ptrace st') \<Longrightarrow>
   walkDir n fs sendAlways p st = Some st'"
proof (induction n arbitrary: p st st')
  case 0
  then show ?case by simp
next
  case (Suc n)
  show ?case
  proof (cases "ReadDir fs p")
    case (Inl e)
    with Suc.prems show ?thesis by simp
  next
    case (Inr files)
    with Suc.prems have "walkFiles (walkDir n fs sch) fs sch p files (pemit (Listed p) st) = Some st'"
      by simp
    then have "walkFiles (walkDir n fs sendAlways) fs sendAlways p files (pemit (Listed p) st) = Some st'"
      using Suc.prems(2)
      by (rule walkFiles_uncancelled[rotated 2]) (auto intro: Suc.IH walkDir_extends)
    with Inr show ?thesis by simp
  qed
qed

lemma walkPaths_uncancelled:
  "walkPaths n fs sch ps st = Some st' \<Longrightarrow> Canceled \<notin> set (ptrace st') \<Longrightarrow>
   walkPaths n fs sendAlways ps st = Some st'"
proof (induction ps arbitrary: st)
  case Nil
  then show ?case by simp
next
  case (Cons q ps)
  then obtain s1 where s1: "walkDir n fs sch q st = Some s1" "walkPaths n fs sch ps s1 = Some st'"
    by (auto split: option.splits)
  from walkPaths_extends[OF s1(2)] Cons.prems(2) have "Canceled \<notin> set (ptrace s1)" by auto
  from walkDir_uncancelled[OF s1(1) this] Cons.IH[OF s1(2) Cons.prems(2)] show ?case by simp
qed

lemma walk_uncancelled:
  assumes "walk n fs sch ps = Some t" "Canceled \<notin> set t" "n \<le> m"
  shows "walk m fs sendAlways ps = Some t"
proof -
  from assms(1) obtain st where st: "walkPaths n fs sch ps \<lparr>ptrace = [], nselect = 0\<rparr> = Some st"
    "t = ptrace st @ [ChClosed]"
    by (auto simp: walk_def split: option.splits)
  with assms(2) have "Canceled \<notin> set (ptrace st)" by simp
  from walkPaths_uncancelled[OF st(1) this]
  have "walkPaths m fs sendAlways ps \<lparr>ptrace = [], nselect = 0\<rparr> = Some st"
    using assms(3) by (rule walkPaths_mono)
  with st(2) show ?thesis by (simp add: walk_def)
qed

lemma concat_opt_append:
  "concat_opt (xs @ ys) =
   (case concat_opt xs of None \<Rightarrow> None | Some a \<Rightarrow> map_option ((@) a) (concat_opt ys))"
proof (induction xs rule: concat_opt.induct)
  case 1
  then show ?case by (simp add: map_option_append_Nil)
next
  case (2 r)
  then show ?case by simp
next
  case (3 xs r)
  then show ?case by (cases "concat_opt ys") (auto split: option.splits)
qed

lemma concat_opt_skip:
  "concat_opt (xs @ Some [] # ys) = concat_opt (xs @ ys)"
  by (simp add: concat_opt_append map_option_append_Nil split: option.splits)

lemma concat_opt_defined:
  "concat_opt (map g xs) = Some ys \<Longrightarrow> x \<in> set xs \<Longrightarrow> \<exists>zs. g x = Some zs"
proof (induction xs arbitrary: ys)
  case Nil
  then show ?case by simp
next
  case (Cons a xs)
  then show ?case
    by (cases "g a"; cases "concat_opt (map g xs)") auto
qed

lemma walkDir_defined:
  "preorder_spec n fs p = Some xs \<Longrightarrow> \<exists>st'. walkDir n fs sch p st = Some st'"
proof (induction n arbitrary: p xs st)
  case 0
  then show ?case by simp
next
  case (Suc n)
  show ?case
  proof (cases "ReadDir fs p")
    case (Inl e)
    then show ?thesis by simp
  next
    case (Inr files)
    let ?g = "\<lambda>e. if IsDir e then preorder_spec n fs (Join fs p (Name e))
                   else Some [Join fs p (Name e)]"
    from Suc.prems Inr have c: "concat_opt (map ?g files) = Some xs" by simp
    have sub: "\<exists>s'. walkDir n fs sch (Join fs p (Name f)) s = Some s'"
      if f: "f \<in> set files" and d: "IsDir f" for f s
    proof -
      from concat_opt_defined[OF c f] d
      obtain ys where "preorder_spec n fs (Join fs p (Name f)) = Some ys" by auto
      then show ?thesis by (rule Suc.IH)
    qed
    have "\<exists>st'. walkFiles (walkDir n fs sch) fs sch p files (pemit (Listed p) st) = Some st'"
      by (rule walkFiles_total) (rule sub)
    with Inr show ?thesis by simp
  qed
qed

lemma walkPaths_defined:
  "concat_opt (map (preorder_spec n fs) ps) = Some xs \<Longrightarrow>
   \<exists>st'. walkPaths n fs sch ps st = Some st'"
proof (induction ps arbitrary: xs st)
  case Nil
  then show ?case by simp
next
  case (Cons q ps)
  from Cons.prems obtain ys zs where
    q: "preorder_spec n fs q = Some ys" and r: "concat_opt (map (preorder_spec n fs) ps) = Some zs"
    by (cases "preorder_spec n fs q"; cases "concat_opt (map (preorder_spec n fs) ps)") auto
  from walkDir_defined[OF q] obtain s where "walkDir n fs sch q st = Some s" by blast
  with Cons.IH[OF r] show ?case by simp
qed

lemma walk_defined:
  assumes "walk n fs sendAlways ps = Some tr"
  shows "\<exists>t. walk n fs sch ps = Some t"
proof -
  from assms walk_send[of n fs ps]
  have "concat_opt (map (preorder_spec n fs) ps) = Some (emitted tr)" by simp
  from walkPaths_defined[OF this] show ?thesis
    by (auto simp: walk_def split: option.splits)
qed

section \<open>Properties of the loader\<close>

lemma opened_append: "opened (xs @ ys) = opened xs @ opened ys"
  by (induction xs rule: opened.induct) auto

lemma decoded_append: "decoded (xs @ ys) = decoded xs @ decoded ys"
  by (induction xs rule: decoded.induct) auto

lemma LoadFile_opened: "opened (ltrace (snd (LoadFile l fs p st))) = opened (ltrace st) @ [p]"
  by (auto simp: LoadFile_def Let_def lemit_def opened_append split: sum.splits prod.splits option.splits)

lemma LoadFile_decoded:
  "decoded (ltrace (snd (LoadFile l fs p st))) =
   decoded (ltrace st) @ (if StrictMode l \<and> isl (Open fs p) then [] else [p])"
  by (auto simp: LoadFile_def Let_def lemit_def decoded_append split: sum.splits prod.splits option.splits)

lemma loadLoop_append:
  "loadLoop l fs pre st = (None, st1) \<Longrightarrow> loadLoop l fs (pre @ rest) st = loadLoop l fs rest st1"
  by (induction pre arbitrary: st) (auto simp: Let_def split: if_splits prod.splits option.splits)

lemma LoadFile_lenient: "\<not> StrictMode l \<Longrightarrow> fst (LoadFile l fs p st) = None"
  by (auto simp: LoadFile_def Let_def split: sum.splits prod.splits option.splits)

lemma loadLoop_lenient: "\<not> StrictMode l \<Longrightarrow> fst (loadLoop l fs ps st) = None"
  by (induction ps arbitrary: st) (auto simp: Let_def split: if_splits prod.splits option.splits)

lemma loadLoop_opened_ok:
  "loadLoop l fs ps st = (None, st') \<Longrightarrow>
   opened (ltrace st') = opened (ltrace st) @ filter (CanDecode (decoder l)) ps"
proof (induction ps arbitrary: st)
  case Nil
  then show ?case by simp
next
  case (Cons p ps)
  show ?case
  proof (cases "CanDecode (decoder l) p")
    case False
    with Cons show ?thesis by simp
  next
    case True
    obtain r s where lf: "LoadFile l fs p st = (r, s)" by (cases "LoadFile l fs p st")
    from LoadFile_opened[of l fs p st] lf have op: "opened (ltrace s) = opened (ltrace st) @ [p]" by simp
    show ?thesis
    proof (cases r)
      case None
      with Cons.prems True lf have "loadLoop l fs ps s = (None, st')" by simp
      from Cons.IH[OF this] op True show ?thesis by simp
    next
      case (Some e)
      with Cons.prems True lf have
        "loadLoop l fs ps (lemit (Log INFO ''Error loading %s: %s'' [p, e]) s) = (None, st')"
        by (simp add: Let_def split: if_splits)
      from Cons.IH[OF this] op True show ?thesis by (simp add: lemit_def opened_append)
    qed
  qed
qed

lemma loadLoop_rejected:
  "\<forall>p\<in>set ps. \<not> CanDecode (decoder l) p \<Longrightarrow> loadLoop l fs ps st = (None, st)"
  by (induction ps) auto

section \<open>The loader sees the walk only through the paths it sends\<close>

lemma preorder_spec_unreadable: "ReadDir fs p = Inl err \<Longrightarrow> preorder_spec (Suc n) fs p = Some []"
  by simp

lemma LoadRecursive_emitted:
  "LoadRecursive n l fs cfg paths =
   map_option (\<lambda>ps. let (err, st) = loadLoop l fs ps \<lparr>config = cfg, ltrace = []\<rparr>
                     in (err, lemit CancelClose st))
     (map_option emitted (walk n fs sendAlways paths))"
  by (simp add: LoadRecursive_def split: option.splits prod.splits)

lemma walk_skip_root:
  assumes "ReadDir fs p = Inl err"
  shows "map_option emitted (walk (Suc n) fs sendAlways (roots1 @ p # roots2)) =
         map_option emitted (walk (Suc n) fs sendAlways (roots1 @ roots2))"
proof -
  have "preorder_spec (Suc n) fs p = Some []" using assms by simp
  then have "concat_opt (map (preorder_spec (Suc n) fs) (roots1 @ p # roots2)) =
        concat_opt (map (preorder_spec (Suc n) fs) (roots1 @ roots2))"
    by (simp add: concat_opt_skip)
  then show ?thesis by (simp only: walk_send)
qed

lemma walkFiles_skip_entry:
  assumes "ReadDir fs (Join fs dir (Name d)) = Inl err" and "IsDir d"
  shows "map_option (emitted \<circ> ptrace)
           (walkFiles (walkDir (Suc n) fs sendAlways) fs sendAlways dir (es1 @ d # es2) st) =
         map_option (emitted \<circ> ptrace)
           (walkFiles (walkDir (Suc n) fs sendAlways) fs sendAlways dir (es1 @ es2) st)"
proof -
  let ?f = "\<lambda>e. if IsDir e then preorder_spec (Suc n) fs (Join fs dir (Name e))
                 else Some [Join fs dir (Name e)]"
  have eq: "\<And>es. map_option (emitted \<circ> ptrace)
           (walkFiles (walkDir (Suc n) fs sendAlways) fs sendAlways dir es st) =
         map_option ((@) (emitted (ptrace st))) (concat_opt (map ?f es))"
    by (rule walkFiles_send) (rule walkDir_send)
  have "?f d = Some []" using assms by simp
  then have "concat_opt (map ?f (es1 @ d # es2)) = concat_opt (map ?f (es1 @ es2))"
    by (simp add: concat_opt_skip)
  then show ?thesis by (simp only: eq)
qed

lemma LoadFile_strict_error:
  "StrictMode l \<Longrightarrow> LoadFile l fs p st = (Some err, st') \<Longrightarrow>
   Open fs p = Inl err \<or>
   (\<exists>f. Open fs p = Inr f \<and> fst (Decode (decoder l) (Some f) (config st)) = Some err)"
  by (auto simp: LoadFile_def Let_def lemit_def split: sum.splits prod.splits option.splits if_splits)

lemma LoadFile_strict_ok:
  "StrictMode l \<Longrightarrow> LoadFile l fs p st = (None, st') \<Longrightarrow> \<not> isl (Open fs p)"
  by (auto simp: LoadFile_def Let_def lemit_def split: sum.splits prod.splits option.splits if_splits)

lemma loadLoop_decoded_strict:
  "StrictMode l \<Longrightarrow> loadLoop l fs ps st = (None, st') \<Longrightarrow>
   decoded (ltrace st') = decoded (ltrace st) @ filter (CanDecode (decoder l)) ps"
proof (induction ps arbitrary: st)
  case Nil
  then show ?case by simp
next
  case (Cons p ps)
  show ?case
  proof (cases "CanDecode (decoder l) p")
    case False
    with Cons show ?thesis by simp
  next
    case True
    obtain r s where lf: "LoadFile l fs p st = (r, s)" by (cases "LoadFile l fs p st")
    with Cons.prems True have r: "r = None" and rest: "loadLoop l fs ps s = (None, st')"
      by (auto simp: Let_def split: option.splits)
    from LoadFile_strict_ok[OF Cons.prems(1)] lf r have "\<not> isl (Open fs p)" by simp
    with LoadFile_decoded[of l fs p st] lf
    have "decoded (ltrace s) = decoded (ltrace st) @ [p]" by simp
    with Cons.IH[OF Cons.prems(1) rest] True show ?thesis by simp
  qed
qed

lemma LoadFile_no_cancel:
  "CancelClose \<notin> set (ltrace st) \<Longrightarrow> CancelClose \<notin> set (ltrace (snd (LoadFile l fs p st)))"
  by (auto simp: LoadFile_def Let_def lemit_def split: sum.splits prod.splits option.splits)

lemma loadLoop_no_cancel:
  "CancelClose \<notin> set (ltrace st) \<Longrightarrow> CancelClose \<notin> set (ltrace (snd (loadLoop l fs ps st)))"
proof (induction ps arbitrary: st)
  case Nil
  then show ?case by simp
next
  case (Cons p ps)
  obtain r s where lf: "LoadFile l fs p st = (r, s)" by (cases "LoadFile l fs p st")
  with LoadFile_no_cancel[OF Cons.prems, of l fs p] have s: "CancelClose \<notin> set (ltrace s)" by simp
  then have s': "CancelClose \<notin> set (ltrace (lemit (Log INFO ''Error loading %s: %s'' [p, e]) s))" for e
    by (simp add: lemit_def)
  show ?case
    using lf s s' Cons.prems Cons.IH[OF s] Cons.IH[OF s'] Cons.IH[OF Cons.prems]
    by (auto simp: Let_def split: option.splits)
qed

lemma LoadFile_accepts:
  "list_all P (opened (ltrace st)) \<Longrightarrow> list_all P (decoded (ltrace st)) \<Longrightarrow> P p \<Longrightarrow>
   list_all P (opened (ltrace (snd (LoadFile l fs p st)))) \<and>
   list_all P (decoded (ltrace (snd (LoadFile l fs p st))))"
  by (simp add: LoadFile_opened LoadFile_decoded)

lemma loadLoop_accepts:
  "list_all (CanDecode (decoder l)) (opened (ltrace st)) \<Longrightarrow>
   list_all (CanDecode (decoder l)) (decoded (ltrace st)) \<Longrightarrow>
   list_all (CanDecode (decoder l)) (opened (ltrace (snd (loadLoop l fs ps st)))) \<and>
   list_all (CanDecode (decoder l)) (decoded (ltrace (snd (loadLoop l fs ps st))))"
proof (induction ps arbitrary: st)
  case Nil
  then show ?case by simp
next
  case (Cons p ps)
  show ?case
  proof (cases "CanDecode (decoder l) p")
    case False
    with Cons show ?thesis by simp
  next
    case True
    obtain r s where lf: "LoadFile l fs p st = (r, s)" by (cases "LoadFile l fs p st")
    from LoadFile_accepts[OF Cons.prems True, of l fs] lf
    have s: "list_all (CanDecode (decoder l)) (opened (ltrace s))"
      "list_all (CanDecode (decoder l)) (decoded (ltrace s))" by simp_all
    then have s': "list_all (CanDecode (decoder l)) (opened (ltrace (lemit (Log INFO ''Error loading %s: %s'' [p, e]) s)))"
      "list_all (CanDecode (decoder l)) (decoded (ltrace (lemit (Log INFO ''Error loading %s: %s'' [p, e]) s)))" for e
      by (simp_all add: lemit_def opened_append decoded_append)
    show ?thesis
      using True lf s s' Cons.IH[OF s] Cons.IH[OF s']
      by (auto simp: Let_def split: option.splits)
  qed
qed

lemma LoadFile_lenient_open_logged:
  "\<not> StrictMode l \<Longrightarrow> Open fs p = Inl e \<Longrightarrow>
   Log INFO ''Error opening file %s: %s'' [p, e] \<in> set (ltrace (snd (LoadFile l fs p s)))"
  by (auto simp: LoadFile_def Let_def lemit_def split: prod.splits option.splits)

lemma LoadFile_lenient_decode_logged:
  "\<not> StrictMode l \<Longrightarrow> Open fs q = Inr f \<Longrightarrow>
   fst (Decode (decoder l) (Some f) (config s)) = Some e \<Longrightarrow>
   Log INFO ''Error decodeing file %s: %s'' [q, e] \<in> set (ltrace (snd (LoadFile l fs q s)))"
  by (auto simp: LoadFile_def Let_def lemit_def split: prod.splits option.splits)

lemma LoadFile_strict_open_fails:
  "StrictMode l \<Longrightarrow> Open fs p = Inl err \<Longrightarrow>
   LoadFile l fs p st =
     (Some err,
      st\<lparr>ltrace := ltrace st @
           [Log DEBUG ''Reading config file %s'' [p], OpenCall p,
            Log INFO ''Error opening file %s: %s'' [p, err]]\<rparr>)"
  by (simp add: LoadFile_def Let_def lemit_def)

lemma LoadFile_strict_decode_fails:
  "StrictMode l \<Longrightarrow> Open fs p = Inr f \<Longrightarrow>
   Decode (decoder l) (Some f) (config st) = (Some err, cfg') \<Longrightarrow>
   LoadFile l fs p st =
     (Some err,
      \<lparr>config = cfg',
       ltrace = ltrace st @
           [Log DEBUG ''Reading config file %s'' [p], OpenCall p, DecodeCall p (Some f),
            Log INFO ''Error decodeing file %s: %s'' [p, err], CloseCall p (Some f)]\<rparr>)"
  by (simp add: LoadFile_def Let_def lemit_def)

lemma LoadFile_strict_result:
  "StrictMode l \<Longrightarrow>
   fst (LoadFile l fs p st) =
     (case Open fs p of
        Inl e \<Rightarrow> Some e
      | Inr f \<Rightarrow> fst (Decode (decoder l) (Some f) (config st)))"
  by (auto simp: LoadFile_def Let_def lemit_def split: sum.splits prod.splits option.splits)

section \<open>The claims\<close>

text \<open>
  C1. In strict mode the first failure of an open or of a decode on a file the decoder
  accepts ends \<^verbatim>\<open>LoadRecursive\<close> at once with that error: when the paths received are
  \<open>pre @ p # post\<close>, the files of \<open>pre\<close> loaded without error, and \<^verbatim>\<open>os.Open\<close> fails on
  \<open>p\<close> with \<open>err\<close> or \<^verbatim>\<open>Decode\<close> fails on the opened \<open>p\<close> with \<open>err\<close>, then \<^verbatim>\<open>LoadFile\<close>
  returns \<open>err\<close> and so does \<^verbatim>\<open>LoadRecursive\<close>; the paths opened are the accepted ones of
  \<open>pre\<close> and then \<open>p\<close>, and no path of \<open>post\<close> is opened or decoded. After the failing
  \<^verbatim>\<open>LoadFile\<close> the call only logs the error and closes \<^verbatim>\<open>cancelc\<close>.
\<close>

theorem strict_first_error_returned:
  assumes strict: "StrictMode l"
    and w: "walk n fs sendAlways roots = Some tr"
    and split: "emitted tr = pre @ p # post"
    and ok: "loadLoop l fs pre \<lparr>config = cfg, ltrace = []\<rparr> = (None, st1)"
    and can: "CanDecode (decoder l) p"
    and fail: "Open fs p = Inl err \<or>
               (\<exists>f. Open fs p = Inr f \<and>
                    fst (Decode (decoder l) (Some f) (config st1)) = Some err)"
  shows "\<exists>st st2. LoadFile l fs p st1 = (Some err, st2) \<and>
           LoadRecursive n l fs cfg roots = Some (Some err, st) \<and>
           st = lemit CancelClose (lemit (Log INFO ''Error loading %s: %s'' [p, err]) st2) \<and>
           opened (ltrace st) = filter (CanDecode (decoder l)) pre @ [p] \<and>
           decoded (ltrace st) =
             filter (CanDecode (decoder l)) pre @ (if isl (Open fs p) then [] else [p])"
proof -
  from fail have "fst (LoadFile l fs p st1) = Some err"
    by (auto simp: LoadFile_strict_result[OF strict])
  then obtain st2 where lf: "LoadFile l fs p st1 = (Some err, st2)"
    by (cases "LoadFile l fs p st1") simp
  let ?st = "lemit CancelClose (lemit (Log INFO ''Error loading %s: %s'' [p, err]) st2)"
  have "loadLoop l fs (pre @ p # post) \<lparr>config = cfg, ltrace = []\<rparr> = loadLoop l fs (p # post) st1"
    using ok by (rule loadLoop_append)
  also have "\<dots> = (Some err, lemit (Log INFO ''Error loading %s: %s'' [p, err]) st2)"
    using can lf strict by simp
  finally have run: "LoadRecursive n l fs cfg roots = Some (Some err, ?st)"
    using w split by (simp add: LoadRecursive_def)
  have o1: "opened (ltrace st1) = filter (CanDecode (decoder l)) pre"
    using loadLoop_opened_ok[OF ok] by simp
  have d1: "decoded (ltrace st1) = filter (CanDecode (decoder l)) pre"
    using loadLoop_decoded_strict[OF strict ok] by simp
  have o2: "opened (ltrace st2) = opened (ltrace st1) @ [p]"
    using LoadFile_opened[of l fs p st1] lf by simp
  have d2: "decoded (ltrace st2) = decoded (ltrace st1) @ (if isl (Open fs p) then [] else [p])"
    using LoadFile_decoded[of l fs p st1] lf strict by simp
  have "opened (ltrace ?st) = filter (CanDecode (decoder l)) pre @ [p]"
    using o1 o2 by (simp add: lemit_def opened_append)
  moreover have "decoded (ltrace ?st) =
      filter (CanDecode (decoder l)) pre @ (if isl (Open fs p) then [] else [p])"
    using d1 d2 by (simp add: lemit_def decoded_append)
  ultimately show ?thesis
    using run lf by blast
qed

theorem strict_first_error_returned_witness:
  "StrictMode (NewLoader example_decoder True) \<and>
   walk 2 example_fs sendAlways [''A'', ''B''] =
     Some [Listed ''A'', Sent ''A/a1.yaml'', Listed ''A/sub'', Sent ''A/sub/a2.yaml'',
           Listed ''B'', Sent ''B/b1.yaml'', ChClosed] \<and>
   CanDecode (decoder (NewLoader example_decoder True)) ''A/sub/a2.yaml'' \<and>
   Open example_fs ''A/sub/a2.yaml'' = Inr ''{'' \<and>
   fst (Decode (decoder (NewLoader example_decoder True)) (Some ''{'') [''a: 1'']) =
     Some ''yaml: did not find expected node content'' \<and>
   (\<exists>st. LoadRecursive 2 (NewLoader example_decoder True) example_fs [] [''A'', ''B''] =
           Some (Some ''yaml: did not find expected node content'', st) \<and>
         opened (ltrace st) = [''A/a1.yaml'', ''A/sub/a2.yaml''] \<and>
         decoded (ltrace st) = [''A/a1.yaml'', ''A/sub/a2.yaml''])"
proof -
  let ?l = "NewLoader example_decoder True"
  let ?tr = "[Listed ''A'', Sent ''A/a1.yaml'', Listed ''A/sub'', Sent ''A/sub/a2.yaml'',
           Listed ''B'', Sent ''B/b1.yaml'', ChClosed]"
  let ?st1 = "\<lparr>config = [''a: 1''],
      ltrace = [Log DEBUG ''Reading config file %s'' [''A/a1.yaml''], OpenCall ''A/a1.yaml'',
                DecodeCall ''A/a1.yaml'' (Some ''a: 1''),
                CloseCall ''A/a1.yaml'' (Some ''a: 1'')]\<rparr>"
  have h1: "StrictMode ?l" by (simp add: NewLoader_def)
  have h2: "walk 2 example_fs sendAlways [''A'', ''B''] = Some ?tr" by code_simp
  have h3: "emitted ?tr = [''A/a1.yaml''] @ ''A/sub/a2.yaml'' # [''B/b1.yaml'']" by simp
  have h4: "loadLoop ?l example_fs [''A/a1.yaml''] \<lparr>config = [], ltrace = []\<rparr> = (None, ?st1)"
    by (simp add: NewLoader_def example_decoder_def example_fs_def LoadFile_def lemit_def)
  have h5: "CanDecode (decoder ?l) ''A/sub/a2.yaml''"
    by (simp add: NewLoader_def example_decoder_def)
  have o: "Open example_fs ''A/sub/a2.yaml'' = Inr ''{''" by (simp add: example_fs_def)
  have dcd: "fst (Decode (decoder ?l) (Some ''{'') [''a: 1'']) =
     Some ''yaml: did not find expected node content''"
    by (simp add: NewLoader_def example_decoder_def)
  have h6: "Open example_fs ''A/sub/a2.yaml'' = Inl ''yaml: did not find expected node content'' \<or>
     (\<exists>f. Open example_fs ''A/sub/a2.yaml'' = Inr f \<and>
          fst (Decode (decoder ?l) (Some f) (config ?st1)) =
            Some ''yaml: did not find expected node content'')"
    using o dcd by simp
  have c: "filter (CanDecode (decoder ?l)) [''A/a1.yaml''] = [''A/a1.yaml'']"
    by (simp add: NewLoader_def example_decoder_def)
  have no: "\<not> isl (Open example_fs ''A/sub/a2.yaml'')" by (simp add: o)
  from strict_first_error_returned[OF h1 h2 h3 h4 h5 h6]
  have "\<exists>st. LoadRecursive 2 ?l example_fs [] [''A'', ''B''] =
           Some (Some ''yaml: did not find expected node content'', st) \<and>
         opened (ltrace st) = [''A/a1.yaml'', ''A/sub/a2.yaml''] \<and>
         decoded (ltrace st) = [''A/a1.yaml'', ''A/sub/a2.yaml'']"
    unfolding c using no by auto
  with h1 h2 h5 o dcd show ?thesis by blast
qed

text \<open>
  C2. In lenient mode \<^verbatim>\<open>LoadRecursive\<close> returns nil, whatever fails: for roots whose
  trees are at most \<open>d\<close> deep the walk completes, the call returns nil and has opened every
  received path that the decoder accepts; \<^verbatim>\<open>LoadFile\<close> returns nil on every path, and a
  failed open and a failed decode are each logged.
\<close>

theorem lenient_returns_nil:
  assumes lenient: "\<not> StrictMode l" and depth: "list_all (within_depth d fs) roots"
  shows "(\<exists>tr st. walk d fs sendAlways roots = Some tr \<and>
            LoadRecursive d l fs cfg roots = Some (None, st) \<and>
            opened (ltrace st) = filter (CanDecode (decoder l)) (emitted tr)) \<and>
         fst (LoadFile l fs p s) = None \<and>
         (Open fs p = Inl e \<longrightarrow>
            Log INFO ''Error opening file %s: %s'' [p, e]
              \<in> set (ltrace (snd (LoadFile l fs p s)))) \<and>
         (Open fs q = Inr f \<and> fst (Decode (decoder l) (Some f) (config s)) = Some e' \<longrightarrow>
            Log INFO ''Error decodeing file %s: %s'' [q, e']
              \<in> set (ltrace (snd (LoadFile l fs q s))))"
proof -
  from walk_total[OF depth] obtain tr where tr: "walk d fs sendAlways roots = Some tr" by blast
  let ?st0 = "\<lparr>config = cfg, ltrace = []\<rparr>"
  obtain r st where run: "loadLoop l fs (emitted tr) ?st0 = (r, st)"
    by (cases "loadLoop l fs (emitted tr) ?st0")
  with loadLoop_lenient[OF lenient, of fs "emitted tr" ?st0] have r: "r = None" by simp
  from loadLoop_opened_ok[of l fs "emitted tr" ?st0 st] run r
  have "opened (ltrace st) = filter (CanDecode (decoder l)) (emitted tr)" by simp
  then have "opened (ltrace (lemit CancelClose st)) = filter (CanDecode (decoder l)) (emitted tr)"
    by (simp add: lemit_def opened_append)
  moreover have "LoadRecursive d l fs cfg roots = Some (None, lemit CancelClose st)"
    using tr run r by (simp add: LoadRecursive_def)
  ultimately have "\<exists>tr st. walk d fs sendAlways roots = Some tr \<and>
            LoadRecursive d l fs cfg roots = Some (None, st) \<and>
            opened (ltrace st) = filter (CanDecode (decoder l)) (emitted tr)"
    using tr by blast
  then show ?thesis
    using LoadFile_lenient[OF lenient] LoadFile_lenient_open_logged[OF lenient]
      LoadFile_lenient_decode_logged[OF lenient]
    by blast
qed

theorem lenient_returns_nil_witness:
  "\<not> StrictMode (NewLoader example_decoder False) \<and>
   list_all (within_depth 2 example_fs) [''A'', ''missing'', ''B''] \<and>
   Open example_fs ''missing.yaml'' = Inl ''no such file or directory'' \<and>
   Open example_fs ''A/sub/a2.yaml'' = Inr ''{'' \<and>
   fst (Decode (decoder (NewLoader example_decoder False)) (Some ''{'') (config \<lparr>config = [], ltrace = []\<rparr>)) =
     Some ''yaml: did not find expected node content'' \<and>
   (\<exists>tr st. walk 2 example_fs sendAlways [''A'', ''missing'', ''B''] = Some tr \<and>
      LoadRecursive 2 (NewLoader example_decoder False) example_fs [] [''A'', ''missing'', ''B''] =
        Some (None, st) \<and>
      opened (ltrace st) = filter (CanDecode (decoder (NewLoader example_decoder False))) (emitted tr)) \<and>
   fst (LoadFile (NewLoader example_decoder False) example_fs ''missing.yaml''
          \<lparr>config = [], ltrace = []\<rparr>) = None \<and>
   Log INFO ''Error opening file %s: %s'' [''missing.yaml'', ''no such file or directory'']
     \<in> set (ltrace (snd (LoadFile (NewLoader example_decoder False) example_fs ''missing.yaml''
                            \<lparr>config = [], ltrace = []\<rparr>))) \<and>
   Log INFO ''Error decodeing file %s: %s''
       [''A/sub/a2.yaml'', ''yaml: did not find expected node content'']
     \<in> set (ltrace (snd (LoadFile (NewLoader example_decoder False) example_fs ''A/sub/a2.yaml''
                            \<lparr>config = [], ltrace = []\<rparr>)))"
proof -
  let ?l = "NewLoader example_decoder False"
  have h1: "\<not> StrictMode ?l" by (simp add: NewLoader_def)
  have h2: "list_all (within_depth 2 example_fs) [''A'', ''missing'', ''B'']" by code_simp
  have h3: "Open example_fs ''missing.yaml'' = Inl ''no such file or directory''"
    by (simp add: example_fs_def)
  have h4: "Open example_fs ''A/sub/a2.yaml'' = Inr ''{''"
    by (simp add: example_fs_def)
  have h5: "fst (Decode (decoder ?l) (Some ''{'') (config \<lparr>config = [], ltrace = []\<rparr>)) =
     Some ''yaml: did not find expected node content''"
    by (simp add: NewLoader_def example_decoder_def)
  from lenient_returns_nil[OF h1 h2, of "[]" "''missing.yaml''" "\<lparr>config = [], ltrace = []\<rparr>"
      "''no such file or directory''" "''A/sub/a2.yaml''" "''{''"
      "''yaml: did not find expected node content''"] h1 h2 h3 h4 h5
  show ?thesis by blast
qed

text \<open>
  C3. What \<^verbatim>\<open>LoadFile\<close> does with a path that cannot be opened. In lenient mode it logs
  the error of the open, then calls \<^verbatim>\<open>Decode\<close> with the nil file, logs the error of that
  decode, closes the nil file and returns nil. In strict mode it returns the error of the
  open and \<^verbatim>\<open>Decode\<close> is not called.
\<close>

theorem LoadFile_decodes_after_failed_open:
  "LoadFile (NewLoader example_decoder False) example_fs ''missing.yaml''
     \<lparr>config = [], ltrace = []\<rparr> =
   (None,
    \<lparr>config = [],
     ltrace = [Log DEBUG ''Reading config file %s'' [''missing.yaml''],
               OpenCall ''missing.yaml'',
               Log INFO ''Error opening file %s: %s''
                 [''missing.yaml'', ''no such file or directory''],
               DecodeCall ''missing.yaml'' None,
               Log INFO ''Error decodeing file %s: %s'' [''missing.yaml'', ''invalid argument''],
               CloseCall ''missing.yaml'' None]\<rparr>) \<and>
   LoadFile (NewLoader example_decoder True) example_fs ''missing.yaml''
     \<lparr>config = [], ltrace = []\<rparr> =
   (Some ''no such file or directory'',
    \<lparr>config = [],
     ltrace = [Log DEBUG ''Reading config file %s'' [''missing.yaml''],
               OpenCall ''missing.yaml'',
               Log INFO ''Error opening file %s: %s''
                 [''missing.yaml'', ''no such file or directory'']]\<rparr>)"
  by code_simp

text \<open>
  C4. While \<^verbatim>\<open>cancelc\<close> is open the walk sends exactly the files below the roots in
  depth-first pre-order: the roots in the order given, the entries of a directory in the
  order of its listing, the files of a subdirectory before the entries that follow it, and
  never a directory itself. For the roots \<^verbatim>\<open>A\<close>, \<^verbatim>\<open>B\<close> of the example the paths sent are
  \<^verbatim>\<open>A/a1.yaml\<close>, \<^verbatim>\<open>A/sub/a2.yaml\<close>, \<^verbatim>\<open>B/b1.yaml\<close>.
\<close>

theorem walk_preorder:
  "map_option emitted (walk n fs sendAlways roots) = concat_opt (map (preorder_spec n fs) roots) \<and>
   map_option emitted (walk 2 example_fs sendAlways [''A'', ''B'']) =
     Some [''A/a1.yaml'', ''A/sub/a2.yaml'', ''B/b1.yaml'']"
proof
  show "map_option emitted (walk n fs sendAlways roots) = concat_opt (map (preorder_spec n fs) roots)"
    by (rule walk_send)
  have "walk 2 example_fs sendAlways [''A'', ''B''] =
    Some [Listed ''A'', Sent ''A/a1.yaml'', Listed ''A/sub'', Sent ''A/sub/a2.yaml'',
          Listed ''B'', Sent ''B/b1.yaml'', ChClosed]"
    by code_simp
  then show "map_option emitted (walk 2 example_fs sendAlways [''A'', ''B'']) =
     Some [''A/a1.yaml'', ''A/sub/a2.yaml'', ''B/b1.yaml'']"
    by simp
qed

text \<open>
  C5. A path whose listing fails is skipped: \<^verbatim>\<open>walkDir\<close> logs the error and returns
  without sending anything; as a root, and as a subdirectory among the entries of a
  directory, it leaves the paths sent for the other roots and entries as they are without
  it; and \<^verbatim>\<open>LoadRecursive\<close> returns what it returns without that root, so the failure
  never is its error.
\<close>

theorem unreadable_directory_skipped:
  assumes "ReadDir fs p = Inl err"
  shows "walkDir (Suc n) fs sch p st = Some (pemit (LogError p err) (pemit (Listed p) st)) \<and>
         emitted (ptrace (pemit (LogError p err) (pemit (Listed p) st))) = emitted (ptrace st) \<and>
         map_option emitted (walk (Suc n) fs sendAlways (roots1 @ p # roots2)) =
           map_option emitted (walk (Suc n) fs sendAlways (roots1 @ roots2)) \<and>
         (IsDir d \<and> Join fs dir (Name d) = p \<longrightarrow>
            map_option (emitted \<circ> ptrace)
              (walkFiles (walkDir (Suc n) fs sendAlways) fs sendAlways dir (es1 @ d # es2) st) =
            map_option (emitted \<circ> ptrace)
              (walkFiles (walkDir (Suc n) fs sendAlways) fs sendAlways dir (es1 @ es2) st)) \<and>
         LoadRecursive (Suc n) l fs cfg (roots1 @ p # roots2) =
           LoadRecursive (Suc n) l fs cfg (roots1 @ roots2)"
proof (intro conjI impI)
  show "walkDir (Suc n) fs sch p st = Some (pemit (LogError p err) (pemit (Listed p) st))"
    using assms by simp
  show "emitted (ptrace (pemit (LogError p err) (pemit (Listed p) st))) = emitted (ptrace st)"
    by (simp add: pemit_def emitted_append)
  show root: "map_option emitted (walk (Suc n) fs sendAlways (roots1 @ p # roots2)) =
           map_option emitted (walk (Suc n) fs sendAlways (roots1 @ roots2))"
    using assms by (rule walk_skip_root)
  show "LoadRecursive (Suc n) l fs cfg (roots1 @ p # roots2) =
           LoadRecursive (Suc n) l fs cfg (roots1 @ roots2)"
    by (simp only: LoadRecursive_emitted root)
next
  assume "IsDir d \<and> Join fs dir (Name d) = p"
  with assms have "ReadDir fs (Join fs dir (Name d)) = Inl err" "IsDir d" by simp_all
  then show "map_option (emitted \<circ> ptrace)
              (walkFiles (walkDir (Suc n) fs sendAlways) fs sendAlways dir (es1 @ d # es2) st) =
            map_option (emitted \<circ> ptrace)
              (walkFiles (walkDir (Suc n) fs sendAlways) fs sendAlways dir (es1 @ es2) st)"
    by (rule walkFiles_skip_entry)
qed

theorem unreadable_directory_skipped_witness:
  "ReadDir example_fs ''C/locked'' = Inl ''permission denied'' \<and>
   walkDir 2 example_fs cancelFirst ''C/locked'' \<lparr>ptrace = [], nselect = 0\<rparr> =
     Some \<lparr>ptrace = [Listed ''C/locked'', LogError ''C/locked'' ''permission denied''],
           nselect = 0\<rparr> \<and>
   map_option emitted (walk 2 example_fs sendAlways [''A'', ''C/locked'', ''B'']) =
     map_option emitted (walk 2 example_fs sendAlways [''A'', ''B'']) \<and>
   map_option (emitted \<circ> ptrace)
     (walkFiles (walkDir 2 example_fs sendAlways) example_fs sendAlways ''C''
        [\<lparr>Name = ''c.yaml'', IsDir = False\<rparr>, \<lparr>Name = ''locked'', IsDir = True\<rparr>,
         \<lparr>Name = ''z.yaml'', IsDir = False\<rparr>] \<lparr>ptrace = [], nselect = 0\<rparr>) =
   map_option (emitted \<circ> ptrace)
     (walkFiles (walkDir 2 example_fs sendAlways) example_fs sendAlways ''C''
        [\<lparr>Name = ''c.yaml'', IsDir = False\<rparr>, \<lparr>Name = ''z.yaml'', IsDir = False\<rparr>]
        \<lparr>ptrace = [], nselect = 0\<rparr>) \<and>
   LoadRecursive 2 (NewLoader example_decoder True) example_fs [] [''A'', ''C/locked'', ''B''] =
     LoadRecursive 2 (NewLoader example_decoder True) example_fs [] [''A'', ''B'']"
proof -
  have h: "ReadDir example_fs ''C/locked'' = Inl ''permission denied''"
    by (simp add: example_fs_def)
  have d: "IsDir \<lparr>Name = ''locked'', IsDir = True\<rparr> \<and>
           Join example_fs ''C'' (Name \<lparr>Name = ''locked'', IsDir = True\<rparr>) = ''C/locked''"
    by (simp add: example_fs_def)
  have two: "Suc 1 = 2" by simp
  note t = unreadable_directory_skipped[OF h, of 1 cancelFirst "\<lparr>ptrace = [], nselect = 0\<rparr>"
      "[''A'']" "[''B'']" "\<lparr>Name = ''locked'', IsDir = True\<rparr>" "''C''"
      "[\<lparr>Name = ''c.yaml'', IsDir = False\<rparr>]" "[\<lparr>Name = ''z.yaml'', IsDir = False\<rparr>]"
      "NewLoader example_decoder True" "[]", unfolded two]
  from t have a: "walkDir 2 example_fs cancelFirst ''C/locked'' \<lparr>ptrace = [], nselect = 0\<rparr> =
     Some \<lparr>ptrace = [Listed ''C/locked'', LogError ''C/locked'' ''permission denied''],
           nselect = 0\<rparr>"
    by (simp add: pemit_def)
  from t d show ?thesis
    unfolding a using h by simp
qed

text \<open>
  C6. Whenever \<^verbatim>\<open>LoadRecursive\<close> returns, with nil or with an error, the last thing it has
  done is \<^verbatim>\<open>close(cancelc)\<close>, and it has done so exactly once. And whichever case the
  selects of the producer then take, its goroutine comes to its end, \<^verbatim>\<open>close(ch)\<close>.
\<close>

theorem cancel_closed_on_every_return:
  assumes "LoadRecursive n l fs cfg roots = Some (r, st)"
  shows "last (ltrace st) = CancelClose \<and> count_list (ltrace st) CancelClose = 1 \<and>
         (\<forall>sch. \<exists>t. walk n fs sch roots = Some t \<and> last t = ChClosed)"
proof -
  from assms obtain tr s where tr: "walk n fs sendAlways roots = Some tr" and
    s: "loadLoop l fs (emitted tr) \<lparr>config = cfg, ltrace = []\<rparr> = (r, s)" "st = lemit CancelClose s"
    by (auto simp: LoadRecursive_def split: option.splits prod.splits)
  have "CancelClose \<notin> set (ltrace (snd (loadLoop l fs (emitted tr) \<lparr>config = cfg, ltrace = []\<rparr>)))"
    by (rule loadLoop_no_cancel) simp
  with s(1) have "count_list (ltrace s) CancelClose = 0" by (simp add: count_list_0_iff)
  with s(2) have "last (ltrace st) = CancelClose \<and> count_list (ltrace st) CancelClose = 1"
    by (simp add: lemit_def)
  moreover have "\<exists>t. walk n fs sch roots = Some t \<and> last t = ChClosed" for sch
    using walk_defined[OF tr, of sch] by (auto simp: walk_def split: option.splits)
  ultimately show ?thesis by blast
qed

theorem cancel_closed_on_every_return_witness:
  "LoadRecursive 2 (NewLoader example_decoder True) example_fs [] [''A'', ''B''] =
     Some (Some ''yaml: did not find expected node content'',
       \<lparr>config = [''a: 1''],
        ltrace = [Log DEBUG ''Reading config file %s'' [''A/a1.yaml''], OpenCall ''A/a1.yaml'',
                  DecodeCall ''A/a1.yaml'' (Some ''a: 1''),
                  CloseCall ''A/a1.yaml'' (Some ''a: 1''),
                  Log DEBUG ''Reading config file %s'' [''A/sub/a2.yaml''],
                  OpenCall ''A/sub/a2.yaml'', DecodeCall ''A/sub/a2.yaml'' (Some ''{''),
                  Log INFO ''Error decodeing file %s: %s''
                    [''A/sub/a2.yaml'', ''yaml: did not find expected node content''],
                  CloseCall ''A/sub/a2.yaml'' (Some ''{''),
                  Log INFO ''Error loading %s: %s''
                    [''A/sub/a2.yaml'', ''yaml: did not find expected node content''],
                  CancelClose]\<rparr>) \<and>
   LoadRecursive 1 (NewLoader example_decoder True) example_fs [] [''B''] =
     Some (None,
       \<lparr>config = [''b: 2''],
        ltrace = [Log DEBUG ''Reading config file %s'' [''B/b1.yaml''], OpenCall ''B/b1.yaml'',
                  DecodeCall ''B/b1.yaml'' (Some ''b: 2''),
                  CloseCall ''B/b1.yaml'' (Some ''b: 2''), CancelClose]\<rparr>) \<and>
   count_list
     [Log DEBUG ''Reading config file %s'' [''A/a1.yaml''], OpenCall ''A/a1.yaml'',
      DecodeCall ''A/a1.yaml'' (Some ''a: 1''), CloseCall ''A/a1.yaml'' (Some ''a: 1''),
      Log DEBUG ''Reading config file %s'' [''A/sub/a2.yaml''],
      OpenCall ''A/sub/a2.yaml'', DecodeCall ''A/sub/a2.yaml'' (Some ''{''),
      Log INFO ''Error decodeing file %s: %s''
        [''A/sub/a2.yaml'', ''yaml: did not find expected node content''],
      CloseCall ''A/sub/a2.yaml'' (Some ''{''),
      Log INFO ''Error loading %s: %s''
        [''A/sub/a2.yaml'', ''yaml: did not find expected node content''],
      CancelClose] CancelClose = 1 \<and>
   count_list
     [Log DEBUG ''Reading config file %s'' [''B/b1.yaml''], OpenCall ''B/b1.yaml'',
      DecodeCall ''B/b1.yaml'' (Some ''b: 2''), CloseCall ''B/b1.yaml'' (Some ''b: 2''),
      CancelClose] CancelClose = 1"
proof -
  have w1: "walk 2 example_fs sendAlways [''A'', ''B''] =
     Some [Listed ''A'', Sent ''A/a1.yaml'', Listed ''A/sub'', Sent ''A/sub/a2.yaml'',
           Listed ''B'', Sent ''B/b1.yaml'', ChClosed]" by code_simp
  have w2: "walk 1 example_fs sendAlways [''B''] = Some [Listed ''B'', Sent ''B/b1.yaml'', ChClosed]"
    by code_simp
  let ?r1 = "LoadRecursive 2 (NewLoader example_decoder True) example_fs [] [''A'', ''B'']"
  let ?r2 = "LoadRecursive 1 (NewLoader example_decoder True) example_fs [] [''B'']"
  have h1: "?r1 = Some (Some ''yaml: did not find expected node content'',
       \<lparr>config = [''a: 1''],
        ltrace = [Log DEBUG ''Reading config file %s'' [''A/a1.yaml''], OpenCall ''A/a1.yaml'',
                  DecodeCall ''A/a1.yaml'' (Some ''a: 1''),
                  CloseCall ''A/a1.yaml'' (Some ''a: 1''),
                  Log DEBUG ''Reading config file %s'' [''A/sub/a2.yaml''],
                  OpenCall ''A/sub/a2.yaml'', DecodeCall ''A/sub/a2.yaml'' (Some ''{''),
                  Log INFO ''Error decodeing file %s: %s''
                    [''A/sub/a2.yaml'', ''yaml: did not find expected node content''],
                  CloseCall ''A/sub/a2.yaml'' (Some ''{''),
                  Log INFO ''Error loading %s: %s''
                    [''A/sub/a2.yaml'', ''yaml: did not find expected node content''],
                  CancelClose]\<rparr>)"
    by code_simp
  have h2: "?r2 = Some (None,
       \<lparr>config = [''b: 2''],
        ltrace = [Log DEBUG ''Reading config file %s'' [''B/b1.yaml''], OpenCall ''B/b1.yaml'',
                  DecodeCall ''B/b1.yaml'' (Some ''b: 2''),
                  CloseCall ''B/b1.yaml'' (Some ''b: 2''), CancelClose]\<rparr>)"
    by code_simp
  from cancel_closed_on_every_return[OF h1] cancel_closed_on_every_return[OF h2] h1 h2
  show ?thesis by simp
qed

text \<open>
  C7. Two runs of the walk over the roots \<^verbatim>\<open>E\<close>, \<^verbatim>\<open>B\<close> with \<^verbatim>\<open>cancelc\<close> closed
  before the first select. When every select receives from \<^verbatim>\<open>cancelc\<close>, the run returns
  from \<^verbatim>\<open>walkDir\<close> of \<^verbatim>\<open>E/conf.d\<close> only, goes on with the next entry of \<^verbatim>\<open>E\<close>, and then
  lists the next root \<^verbatim>\<open>B\<close>. When only the first select receives from \<^verbatim>\<open>cancelc\<close> and
  the later ones send, which Go allows as long as \<^verbatim>\<open>ch\<close> has room, the run sends
  \<^verbatim>\<open>E/e.yaml\<close> and \<^verbatim>\<open>B/b1.yaml\<close> after it has seen the cancellation.
\<close>

theorem walk_goes_on_after_cancel:
  "walk 2 example_fs cancelAlways [''E'', ''B''] =
     Some [Listed ''E'', Listed ''E/conf.d'', Canceled, Canceled, Listed ''B'', Canceled,
           ChClosed] \<and>
   walk 2 example_fs cancelFirst [''E'', ''B''] =
     Some [Listed ''E'', Listed ''E/conf.d'', Canceled, Sent ''E/e.yaml'', Listed ''B'',
           Sent ''B/b1.yaml'', ChClosed]"
  by code_simp

text \<open>
  C8. \<^verbatim>\<open>LoadRecursive\<close> opens and decodes only paths that \<^verbatim>\<open>CanDecode\<close> accepts; when
  \<^verbatim>\<open>CanDecode\<close> rejects every path received, it returns nil, the configuration is the one
  passed in, and the call has done nothing but close \<^verbatim>\<open>cancelc\<close>.
\<close>

theorem rejected_paths_never_loaded:
  assumes "LoadRecursive n l fs cfg roots = Some (r, st)"
    and "walk n fs sendAlways roots = Some tr"
  shows "list_all (CanDecode (decoder l)) (opened (ltrace st)) \<and>
         list_all (CanDecode (decoder l)) (decoded (ltrace st)) \<and>
         (list_all (\<lambda>p. \<not> CanDecode (decoder l) p) (emitted tr) \<longrightarrow>
            r = None \<and> config st = cfg \<and> ltrace st = [CancelClose])"
proof -
  let ?st0 = "\<lparr>config = cfg, ltrace = []\<rparr>"
  from assms have run: "loadLoop l fs (emitted tr) ?st0 = (r, snd (loadLoop l fs (emitted tr) ?st0))"
    and st: "st = lemit CancelClose (snd (loadLoop l fs (emitted tr) ?st0))"
    by (auto simp: LoadRecursive_def split: prod.splits)
  have "list_all (CanDecode (decoder l)) (opened (ltrace (snd (loadLoop l fs (emitted tr) ?st0)))) \<and>
        list_all (CanDecode (decoder l)) (decoded (ltrace (snd (loadLoop l fs (emitted tr) ?st0))))"
    by (rule loadLoop_accepts) simp_all
  then have acc: "list_all (CanDecode (decoder l)) (opened (ltrace st))"
    "list_all (CanDecode (decoder l)) (decoded (ltrace st))"
    using st by (simp_all add: lemit_def opened_append decoded_append)
  have "r = None \<and> config st = cfg \<and> ltrace st = [CancelClose]"
    if "list_all (\<lambda>p. \<not> CanDecode (decoder l) p) (emitted tr)"
  proof -
    from that have "loadLoop l fs (emitted tr) ?st0 = (None, ?st0)"
      by (intro loadLoop_rejected) (simp add: list_all_iff)
    with run st show ?thesis by (simp add: lemit_def)
  qed
  with acc show ?thesis by blast
qed

theorem rejected_paths_never_loaded_witness:
  "LoadRecursive 1 (NewLoader example_decoder True) example_fs [''x: 0''] [''D''] =
     Some (None, \<lparr>config = [''x: 0''], ltrace = [CancelClose]\<rparr>) \<and>
   walk 1 example_fs sendAlways [''D''] = Some [Listed ''D'', Sent ''D/readme.txt'', ChClosed] \<and>
   list_all (\<lambda>p. \<not> CanDecode (decoder (NewLoader example_decoder True)) p)
     (emitted [Listed ''D'', Sent ''D/readme.txt'', ChClosed]) \<and>
   LoadRecursive 1 (NewLoader example_decoder True) example_fs [] [''B'', ''D''] =
     Some (None,
       \<lparr>config = [''b: 2''],
        ltrace = [Log DEBUG ''Reading config file %s'' [''B/b1.yaml''], OpenCall ''B/b1.yaml'',
                  DecodeCall ''B/b1.yaml'' (Some ''b: 2''),
                  CloseCall ''B/b1.yaml'' (Some ''b: 2''), CancelClose]\<rparr>) \<and>
   list_all (CanDecode (decoder (NewLoader example_decoder True)))
     (opened [Log DEBUG ''Reading config file %s'' [''B/b1.yaml''], OpenCall ''B/b1.yaml'',
              DecodeCall ''B/b1.yaml'' (Some ''b: 2''),
              CloseCall ''B/b1.yaml'' (Some ''b: 2''), CancelClose])"
proof -
  let ?l = "NewLoader example_decoder True"
  have w1: "walk 1 example_fs sendAlways [''D''] = Some [Listed ''D'', Sent ''D/readme.txt'', ChClosed]"
    by code_simp
  have w2: "walk 1 example_fs sendAlways [''B'', ''D''] =
     Some [Listed ''B'', Sent ''B/b1.yaml'', Listed ''D'', Sent ''D/readme.txt'', ChClosed]"
    by code_simp
  have h1: "LoadRecursive 1 ?l example_fs [''x: 0''] [''D''] =
     Some (None, \<lparr>config = [''x: 0''], ltrace = [CancelClose]\<rparr>)"
    by code_simp
  have h2: "LoadRecursive 1 ?l example_fs [] [''B'', ''D''] =
     Some (None,
       \<lparr>config = [''b: 2''],
        ltrace = [Log DEBUG ''Reading config file %s'' [''B/b1.yaml''], OpenCall ''B/b1.yaml'',
                  DecodeCall ''B/b1.yaml'' (Some ''b: 2''),
                  CloseCall ''B/b1.yaml'' (Some ''b: 2''), CancelClose]\<rparr>)"
    by code_simp
  have r: "list_all (\<lambda>p. \<not> CanDecode (decoder ?l) p)
     (emitted [Listed ''D'', Sent ''D/readme.txt'', ChClosed])"
    by (simp add: NewLoader_def example_decoder_def)
  from rejected_paths_never_loaded[OF h1 w1] rejected_paths_never_loaded[OF h2 w2] h1 h2 w1 r
  show ?thesis by simp
qed

text \<open>
  C9. The walk is deterministic: two runs over the same roots and the same file system that
  are not cancelled, whatever their schedules and depth bounds, have the same trace and so
  send the same paths in the same order.
\<close>

theorem walk_deterministic:
  assumes "walk n1 fs sch1 roots = Some t1" and "walk n2 fs sch2 roots = Some t2"
    and "Canceled \<notin> set t1" and "Canceled \<notin> set t2"
  shows "t1 = t2 \<and> emitted t1 = emitted t2"
proof -
  have "walk (max n1 n2) fs sendAlways roots = Some t1"
    using assms(1,3) by (rule walk_uncancelled) simp
  moreover have "walk (max n1 n2) fs sendAlways roots = Some t2"
    using assms(2,4) by (rule walk_uncancelled) simp
  ultimately show ?thesis by simp
qed

theorem walk_deterministic_witness:
  "walk 2 example_fs sendAlways [''C'', ''A''] =
     Some [Listed ''C'', Sent ''C/c.yaml'', Listed ''C/locked'',
           LogError ''C/locked'' ''permission denied'', Sent ''C/z.yaml'',
           Listed ''A'', Sent ''A/a1.yaml'', Listed ''A/sub'', Sent ''A/sub/a2.yaml'', ChClosed] \<and>
   walk 5 example_fs (\<lambda>i. if i < 4 then SendCase else CancelCase) [''C'', ''A''] =
     Some [Listed ''C'', Sent ''C/c.yaml'', Listed ''C/locked'',
           LogError ''C/locked'' ''permission denied'', Sent ''C/z.yaml'',
           Listed ''A'', Sent ''A/a1.yaml'', Listed ''A/sub'', Sent ''A/sub/a2.yaml'', ChClosed] \<and>
   emitted [Listed ''C'', Sent ''C/c.yaml'', Listed ''C/locked'',
           LogError ''C/locked'' ''permission denied'', Sent ''C/z.yaml'',
           Listed ''A'', Sent ''A/a1.yaml'', Listed ''A/sub'', Sent ''A/sub/a2.yaml'', ChClosed] =
   emitted [Listed ''C'', Sent ''C/c.yaml'', Listed ''C/locked'',
           LogError ''C/locked'' ''permission denied'', Sent ''C/z.yaml'',
           Listed ''A'', Sent ''A/a1.yaml'', Listed ''A/sub'', Sent ''A/sub/a2.yaml'', ChClosed]"
proof -
  let ?t = "[Listed ''C'', Sent ''C/c.yaml'', Listed ''C/locked'',
           LogError ''C/locked'' ''permission denied'', Sent ''C/z.yaml'',
           Listed ''A'', Sent ''A/a1.yaml'', Listed ''A/sub'', Sent ''A/sub/a2.yaml'', ChClosed]"
  have h1: "walk 2 example_fs sendAlways [''C'', ''A''] = Some ?t"
    by code_simp
  have h2: "walk 5 example_fs (\<lambda>i. if i < 4 then SendCase else CancelCase) [''C'', ''A''] = Some ?t"
    by code_simp
  have h3: "Canceled \<notin> set ?t" by simp
  from walk_deterministic[OF h1 h2 h3 h3] have "emitted ?t = emitted ?t" by (rule conjunct2)
  with h1 h2 show ?thesis by (intro conjI)
qed

text \<open>
  C10. A root that is a regular file, one that \<^verbatim>\<open>os.Open\<close> opens and the decoder accepts
  but whose listing fails, contributes no path: the walk lists it, logs the error and
  closes the channel, and \<^verbatim>\<open>LoadRecursive\<close> returns nil without opening or decoding
  the file and without touching the configuration.
\<close>

theorem regular_file_root_not_loaded:
  assumes "ReadDir fs p = Inl err" and "Open fs p = Inr c" and "CanDecode (decoder l) p"
  shows "walk (Suc n) fs sch [p] = Some [Listed p, LogError p err, ChClosed] \<and>
         emitted [Listed p, LogError p err, ChClosed] = [] \<and>
         LoadRecursive (Suc n) l fs cfg [p] = Some (None, \<lparr>config = cfg, ltrace = [CancelClose]\<rparr>)"
proof -
  have w: "walk (Suc n) fs sch [p] = Some [Listed p, LogError p err, ChClosed]" for sch
    using assms(1) by (simp add: walk_def pemit_def)
  then show ?thesis
    by (simp add: LoadRecursive_def lemit_def)
qed

theorem regular_file_root_not_loaded_witness:
  "ReadDir example_fs ''A/a1.yaml'' = Inl ''not a directory'' \<and>
   Open example_fs ''A/a1.yaml'' = Inr ''a: 1'' \<and>
   CanDecode (decoder (NewLoader example_decoder True)) ''A/a1.yaml'' \<and>
   walk 1 example_fs sendAlways [''A/a1.yaml''] =
     Some [Listed ''A/a1.yaml'', LogError ''A/a1.yaml'' ''not a directory'', ChClosed] \<and>
   LoadRecursive 1 (NewLoader example_decoder True) example_fs [] [''A/a1.yaml''] =
     Some (None, \<lparr>config = [], ltrace = [CancelClose]\<rparr>)"
proof -
  have h1: "ReadDir example_fs ''A/a1.yaml'' = Inl ''not a directory''"
    by (simp add: example_fs_def)
  have h2: "Open example_fs ''A/a1.yaml'' = Inr ''a: 1''"
    by (simp add: example_fs_def)
  have h3: "CanDecode (decoder (NewLoader example_decoder True)) ''A/a1.yaml''"
    by (simp add: NewLoader_def example_decoder_def)
  have one: "Suc 0 = 1" by simp
  from regular_file_root_not_loaded[OF h1 h2 h3, of 0 sendAlways "[]", unfolded one] h1 h2 h3
  show ?thesis by simp
qed

end
